theory Spec2Isabelle
  imports Complex_Main "HOL-Library.Word"
begin

unbundle bit_operations_syntax

section \<open>Python values\<close>

text \<open>
  The program is \<^verbatim>\<open>scripts/lookup_gen.py\<close>: \<^verbatim>\<open>generate_cordic_lut\<close> builds
  the arctangent table and the gain, \<^verbatim>\<open>format_qmn\<close> quantises a list of angles into
  left-justified 32-bit words, and \<^verbatim>\<open>main\<close> writes the Verilog lookup module.

  Python integers are unbounded: they are \<open>int\<close>. A Python float is modelled by the real
  number it denotes. What the model keeps of the double-precision range is what the
  program's results turn on:
  \<^item> \<^verbatim>\<open>2.0 ** y\<close> raises OverflowError from \<open>y = 1024\<close> on and is \<open>0.0\<close> from
    \<open>y = -1075\<close> down (the smallest positive double is \<open>2 ^ -1074\<close>);
  \<^item> a product of magnitude \<open>2 ^ 1024\<close> or more is \<open>inf\<close>, on which \<^verbatim>\<open>round\<close> raises
    OverflowError; a real of that magnitude stands for \<open>inf\<close>;
  \<^item> \<^verbatim>\<open>math.sqrt\<close> raises ValueError below zero, \<^verbatim>\<open>/\<close> raises ZeroDivisionError.
  The rounding of a result to 53 bits is not modelled, nor is \<open>nan\<close>. The product
  \<^verbatim>\<open>angle * (1 << n)\<close> of a double and a power of two is exact in double precision.
  An integer is converted to a float exactly (loop indices and shift counts are small).
\<close>

datatype error =
    SystemExit string
  | ValueError
  | OverflowError
  | ZeroDivisionError
  | TypeError
  | NameError

subsection \<open>Integer operations and formatting\<close>

definition py_lshift :: "int \<Rightarrow> int \<Rightarrow> error + int" where
  \<comment> \<open>\<^verbatim>\<open>a << k\<close>: a negative shift count raises ValueError.\<close>
  "py_lshift a k = (if k < 0 then Inl ValueError else Inr (push_bit (nat k) a))"

definition digit_char :: "nat \<Rightarrow> char" where
  "digit_char d = ''0123456789ABCDEF'' ! d"

fun dec_digits :: "nat \<Rightarrow> string" where
  "dec_digits k = (if k < 10 then [digit_char k] else dec_digits (k div 10) @ [digit_char (k mod 10)])"

declare dec_digits.simps [simp del]

definition str_int :: "int \<Rightarrow> string" where
  \<comment> \<open>\<^verbatim>\<open>f"{k}"\<close> for an integer.\<close>
  "str_int k = (if k < 0 then CHR ''-'' # dec_digits (nat (- k)) else dec_digits (nat k))"

fun hex_digits :: "nat \<Rightarrow> string" where
  "hex_digits k = (if k < 16 then [digit_char k] else hex_digits (k div 16) @ [digit_char (k mod 16)])"

declare hex_digits.simps [simp del]

definition zero_pad :: "nat \<Rightarrow> string \<Rightarrow> string" where
  "zero_pad w s = replicate (w - length s) CHR ''0'' @ s"

definition fmt_08X :: "int \<Rightarrow> string" where
  \<comment> \<open>\<^verbatim>\<open>f"{word:08X}"\<close>: upper-case hexadecimal, zero-padded to width 8, the sign
      counted in the width.\<close>
  "fmt_08X w = (if w < 0 then CHR ''-'' # zero_pad 7 (hex_digits (nat (- w)))
                else zero_pad 8 (hex_digits (nat w)))"

subsection \<open>Float operations\<close>

definition c_round :: "real \<Rightarrow> int" where
  \<comment> \<open>C's \<^verbatim>\<open>round\<close>: the nearest integer, halves away from zero.\<close>
  "c_round x = (if 0 \<le> x then \<lfloor>x + 1 / 2\<rfloor> else \<lceil>x - 1 / 2\<rceil>)"

definition float_round :: "real \<Rightarrow> int" where
  \<comment> \<open>\<^verbatim>\<open>float.__round__\<close> with no digits, as CPython computes it: C's \<^verbatim>\<open>round\<close>,
      corrected to the even neighbour when the argument is halfway.\<close>
  "float_round x =
     (let rounded = c_round x
      in if \<bar>x - of_int rounded\<bar> = 1 / 2 then 2 * c_round (x / 2) else rounded)"

definition py_round :: "real \<Rightarrow> error + int" where
  \<comment> \<open>\<^verbatim>\<open>int(round(x))\<close>: OverflowError on an infinite argument.\<close>
  "py_round x = (if \<bar>x\<bar> < 2 ^ 1024 then Inr (float_round x) else Inl OverflowError)"

definition float_exp2 :: "real \<Rightarrow> real" where
  \<comment> \<open>The double \<^verbatim>\<open>2.0 ** y\<close> below the overflow threshold.\<close>
  "float_exp2 y = (if y \<le> - 1075 then 0 else 2 powr y)"

definition float_pow2 :: "real \<Rightarrow> error + real" where
  \<comment> \<open>\<^verbatim>\<open>2.0 ** y\<close>.\<close>
  "float_pow2 y = (if 1024 \<le> y then Inl OverflowError else Inr (float_exp2 y))"

definition math_atan :: "real \<Rightarrow> real" where
  "math_atan x = arctan x"

definition math_sqrt :: "real \<Rightarrow> error + real" where
  "math_sqrt x = (if x < 0 then Inl ValueError else Inr (sqrt x))"

definition float_truediv :: "real \<Rightarrow> real \<Rightarrow> error + real" where
  "float_truediv x y = (if y = 0 then Inl ZeroDivisionError else Inr (x / y))"

section \<open>The table generator\<close>

text \<open>
  \<^verbatim>\<open>generate_cordic_lut\<close>: the loop over \<^verbatim>\<open>range(n_iter)\<close> carries the list
  \<open>angles\<close> and the running product \<open>K\<close>.
\<close>

fun lut_loop :: "int list \<Rightarrow> real list \<Rightarrow> real \<Rightarrow> error + (real list \<times> real)" where
  "lut_loop [] angles K = Inr (angles, K)"
| "lut_loop (i # is) angles K =
     (case float_pow2 (- of_int i) of
        Inl e \<Rightarrow> Inl e
      | Inr p \<Rightarrow>
          (let angle = math_atan p; angles' = angles @ [angle]
           in case float_pow2 (- 2 * of_int i) of
                Inl e \<Rightarrow> Inl e
              | Inr q \<Rightarrow>
                  (case math_sqrt (1 + q) of
                     Inl e \<Rightarrow> Inl e
                   | Inr s \<Rightarrow>
                       (case float_truediv 1 s of
                          Inl e \<Rightarrow> Inl e
                        | Inr d \<Rightarrow> lut_loop is angles' (K * d)))))"

definition generate_cordic_lut :: "int \<Rightarrow> error + (real list \<times> real)" where
  "generate_cordic_lut n_iter = lut_loop [0..n_iter - 1] [] 1"

section \<open>The fixed-point encoder\<close>

definition exceeds_message :: "int \<Rightarrow> int \<Rightarrow> int \<Rightarrow> string" where
  "exceeds_message m n total_bits =
     ''Error: 1 (sign) + m ('' @ str_int m @ '') + n ('' @ str_int n @ '') = ''
       @ str_int total_bits @ '' bits exceeds 32.''"

definition encode_word :: "int \<Rightarrow> int \<Rightarrow> int \<Rightarrow> int \<Rightarrow> int \<Rightarrow> real \<Rightarrow> error + int" where
  \<comment> \<open>The body of the loop of \<^verbatim>\<open>format_qmn\<close> up to \<^verbatim>\<open>word\<close>.\<close>
  "encode_word n shift_left max_int half_range mask' angle =
     (case py_lshift 1 n of
        Inl e \<Rightarrow> Inl e
      | Inr one_n \<Rightarrow>
          (case py_round (angle * of_int one_n) of
             Inl e \<Rightarrow> Inl e
           | Inr scaled0 \<Rightarrow>
               (let scaled1 = (if scaled0 > max_int then max_int else scaled0);
                    scaled = (if scaled1 < - half_range then - half_range else scaled1);
                    twos = scaled AND mask'
                in py_lshift twos shift_left)))"

fun qmn_loop ::
  "real list \<Rightarrow> int \<Rightarrow> int \<Rightarrow> int \<Rightarrow> int \<Rightarrow> int \<Rightarrow> string list \<Rightarrow> error + string list" where
  "qmn_loop [] n shift_left max_int half_range mask' result = Inr result"
| "qmn_loop (angle # angles) n shift_left max_int half_range mask' result =
     (case encode_word n shift_left max_int half_range mask' angle of
        Inl e \<Rightarrow> Inl e
      | Inr word \<Rightarrow>
          qmn_loop angles n shift_left max_int half_range mask' (result @ [''0x'' @ fmt_08X word]))"

definition format_qmn :: "real list \<Rightarrow> int \<Rightarrow> int \<Rightarrow> error + string list" where
  "format_qmn angles m n =
     (let total_bits = 1 + m + n
      in if total_bits > 32 then Inl (SystemExit (exceeds_message m n total_bits))
         else
           (let shift_left = 32 - total_bits
            in case py_lshift 1 (m + n) of
                 Inl e \<Rightarrow> Inl e
               | Inr p \<Rightarrow>
                   (let max_int = p - 1
                    in case py_lshift 1 (m + n) of
                         Inl e \<Rightarrow> Inl e
                       | Inr half_range \<Rightarrow>
                           (case py_lshift 1 total_bits of
                              Inl e \<Rightarrow> Inl e
                            | Inr q \<Rightarrow>
                                (let mask' = q - 1
                                 in qmn_loop angles n shift_left max_int half_range mask' [])))))"

section \<open>The command line\<close>

text \<open>
  \<^verbatim>\<open>main\<close> parses the arguments, builds the table, encodes it when both \<^verbatim>\<open>--m\<close>
  and \<^verbatim>\<open>--n\<close> are given, and with \<^verbatim>\<open>-V\<close> writes \<^verbatim>\<open>rtl/lookup.v\<close>. The outcome
  of a run is the text of \<^verbatim>\<open>rtl/lookup.v\<close> (\<open>None\<close> when the run never opened the file;
  opening it for writing empties it) and the exception the run ended with, if any. The
  report printed to standard output is left out. The directory \<^verbatim>\<open>rtl\<close> is taken to exist.
\<close>

record args =
  arg_niter :: int
  arg_m :: "int option"
  arg_n :: "int option"
  arg_genverilog :: bool

record outcome =
  lookup_v :: "string option"
  raised :: "error option"

definition verilog_header :: "int \<Rightarrow> int \<Rightarrow> string" where
  "verilog_header N I =
     ''////////////////////////////////////////////////////////////////////////////////\<newline>''
     @ ''// Author: Sudeep Joshi\<newline>''
     @ ''// Description: Arctan Look-Up table for CORDIC Unit\<newline>''
     @ ''////////////////////////////////////////////////////////////////////////////////\<newline>''
     @ ''`default_nettype none\<newline>\<newline>''
     @ ''module arctan_lookup #(\<newline>''
     @ ''    parameter N = '' @ str_int N @ '',\<newline>''
     @ ''    parameter I = '' @ str_int I @ ''\<newline>''
     @ '') (\<newline>''
     @ ''    input  wire                 clk,\<newline>''
     @ ''    input  wire                 rst_n,\<newline>''
     @ ''    input  wire [$clog2(I)-1:0] j,\<newline>''
     @ ''    output reg  [N-1:0]         arctan\<newline>''
     @ '');\<newline>\<newline>''
     @ ''    reg [N-1:0] lookup_table[0:I];\<newline>\<newline>''
     @ ''    /*** Python Generated Block ***/\<newline>''
     @ ''    always @(posedge clk) begin\<newline>''
     @ ''       if(~rst_n) begin\<newline>''"

definition verilog_line :: "nat \<Rightarrow> string \<Rightarrow> string" where
  "verilog_line i hex_val =
     ''        lookup_table['' @ str_int (int i) @ ''] <= 32'h'' @ drop 2 hex_val @ '';\<newline>''"

definition verilog_footer :: string where
  "verilog_footer =
     ''    end\<newline>\<newline>''
     @ ''    end\<newline>\<newline>''
     @ ''    always @(posedge clk) begin\<newline>''
     @ ''        arctan <= lookup_table[j];\<newline>''
     @ ''    end \<newline>\<newline>''
     @ ''endmodule\<newline>''"

text \<open>
  The block under \<^verbatim>\<open>if args.genverilog\<close>. The argument of the first \<^verbatim>\<open>f.write\<close> is
  evaluated before anything is written: \<^verbatim>\<open>1+args.m+args.n\<close> raises TypeError when
  \<^verbatim>\<open>args.m\<close> or \<^verbatim>\<open>args.n\<close> is \<^verbatim>\<open>None\<close>, and leaves the opened file empty.
  \<^verbatim>\<open>hex_values\<close> is bound only on the branch that called \<^verbatim>\<open>format_qmn\<close>.
\<close>

definition write_lookup_v :: "args \<Rightarrow> string list option \<Rightarrow> outcome" where
  "write_lookup_v a hex_values =
     (case arg_m a of
        None \<Rightarrow> \<lparr>lookup_v = Some [], raised = Some TypeError\<rparr>
      | Some m \<Rightarrow>
          (case arg_n a of
             None \<Rightarrow> \<lparr>lookup_v = Some [], raised = Some TypeError\<rparr>
           | Some n \<Rightarrow>
               (let header = verilog_header (1 + m + n) (arg_niter a)
                in case hex_values of
                     None \<Rightarrow> \<lparr>lookup_v = Some header, raised = Some NameError\<rparr>
                   | Some hv \<Rightarrow>
                       \<lparr>lookup_v = Some (header
                            @ concat (map (\<lambda>(i, hex_val). verilog_line i hex_val) (enumerate 0 hv))
                            @ verilog_footer),
                        raised = None\<rparr>)))"

definition main :: "args \<Rightarrow> outcome" where
  "main a =
     (case generate_cordic_lut (arg_niter a) of
        Inl e \<Rightarrow> \<lparr>lookup_v = None, raised = Some e\<rparr>
      | Inr (angles, K) \<Rightarrow>
          (case (case (arg_m a, arg_n a) of
                   (Some m, Some n) \<Rightarrow> map_sum id Some (format_qmn angles m n)
                 | _ \<Rightarrow> Inr None) of
             Inl e \<Rightarrow> \<lparr>lookup_v = None, raised = Some e\<rparr>
           | Inr hex_values \<Rightarrow>
               if arg_genverilog a then write_lookup_v a hex_values
               else \<lparr>lookup_v = None, raised = None\<rparr>))"

text \<open>
  The interpreter ends a run that raised with exit status 1; for \<^verbatim>\<open>sys.exit\<close> with a
  string it prints the string to standard error.
\<close>

definition exit_status :: "outcome \<Rightarrow> nat" where
  "exit_status r = (case raised r of None \<Rightarrow> 0 | Some e \<Rightarrow> 1)"


section \<open>The specification's words\<close>

text \<open>
  The encoder as the specification describes it, step by step, to compare with
  \<^verbatim>\<open>format_qmn\<close>: round half to even, saturate, mask to \<open>1 + m + n\<close> bits, left-justify.
\<close>

definition round_half_even :: "real \<Rightarrow> int" where
  "round_half_even x =
     (let f = \<lfloor>x\<rfloor>; d = x - of_int f
      in if d < 1 / 2 then f else if 1 / 2 < d then f + 1 else if even f then f else f + 1)"

definition spec_scaled :: "int \<Rightarrow> real \<Rightarrow> int" where
  "spec_scaled n angle = round_half_even (angle * 2 ^ nat n)"

definition spec_clamp :: "int \<Rightarrow> int \<Rightarrow> int \<Rightarrow> int" where
  "spec_clamp m n scaled =
     (let max_pos = 2 ^ nat (m + n) - 1; min_neg = - (2 ^ nat (m + n))
      in if scaled > max_pos then max_pos else if scaled < min_neg then min_neg else scaled)"

definition spec_word :: "int \<Rightarrow> int \<Rightarrow> real \<Rightarrow> int" where
  "spec_word m n angle =
     (let total_bits = 1 + m + n;
          twos = spec_clamp m n (spec_scaled n angle) AND (push_bit (nat total_bits) 1 - 1)
      in push_bit (nat (32 - total_bits)) twos)"

text \<open>
  The product \<^verbatim>\<open>angle * (1 << n)\<close> is a finite float.
\<close>

definition in_float_range :: "int \<Rightarrow> real \<Rightarrow> bool" where
  "in_float_range n angle = (\<bar>angle * 2 ^ nat n\<bar> < 2 ^ 1024)"

text \<open>
  Reading an output string back: the value of its hexadecimal digits after the
  \<^verbatim>\<open>0x\<close> prefix; and the decoder of the round-trip property: the 32-bit word read as
  two's complement, shifted right arithmetically by \<open>32 - (1 + m + n)\<close>, divided by
  \<open>2 ^ n\<close>.
\<close>

definition digit_value :: "char \<Rightarrow> nat" where
  "digit_value c = (let k = of_char c in if k < (58::nat) then k - 48 else k - 55)"

definition hex_value :: "string \<Rightarrow> nat" where
  "hex_value s = foldl (\<lambda>acc c. 16 * acc + digit_value c) 0 s"

definition word_of_hex :: "string \<Rightarrow> int" where
  "word_of_hex s = int (hex_value (drop 2 s))"

definition decode_word :: "int \<Rightarrow> int \<Rightarrow> int \<Rightarrow> real" where
  "decode_word m n w =
     real_of_int (drop_bit (nat (32 - (1 + m + n))) (signed_take_bit 31 w)) / 2 ^ nat n"

text \<open>
  The table entry and the gain factor of iteration \<open>i\<close>, with the double \<^verbatim>\<open>2.0 ** y\<close>.
\<close>

definition lut_angle :: "int \<Rightarrow> real" where
  "lut_angle i = arctan (float_exp2 (- real_of_int i))"

definition lut_factor :: "int \<Rightarrow> real" where
  "lut_factor i = 1 / sqrt (1 + float_exp2 (- 2 * real_of_int i))"


section \<open>Lemmas\<close>

subsection \<open>Rounding\<close>

lemma c_round_nonneg: "0 \<le> x \<Longrightarrow> c_round x = (if x - of_int \<lfloor>x\<rfloor> < 1 / 2 then \<lfloor>x\<rfloor> else \<lfloor>x\<rfloor> + 1)"
  unfolding c_round_def by (simp; linarith)

lemma c_round_neg: "x < 0 \<Longrightarrow> c_round x = (if x - of_int \<lfloor>x\<rfloor> \<le> 1 / 2 then \<lfloor>x\<rfloor> else \<lfloor>x\<rfloor> + 1)"
  unfolding c_round_def ceiling_def by (simp; linarith)

lemma c_round_cases: "c_round x = (if x - of_int \<lfloor>x\<rfloor> < 1 / 2 then \<lfloor>x\<rfloor> else if 1 / 2 < x - of_int \<lfloor>x\<rfloor> then \<lfloor>x\<rfloor> + 1 else if 0 \<le> x then \<lfloor>x\<rfloor> + 1 else \<lfloor>x\<rfloor>)"
  using c_round_nonneg[of x] c_round_neg[of x] by (auto split: if_splits)

lemma c_round_quarter: "c_round (of_int k + 1 / 4) = k"
  unfolding c_round_def ceiling_def by (simp; linarith)

lemma c_round_three_quarters: "c_round (of_int k + 3 / 4) = k + 1"
  unfolding c_round_def ceiling_def by (simp; linarith)

lemma float_round_half_even: "float_round x = round_half_even x"
proof -
  define f where "f = \<lfloor>x\<rfloor>"
  define d where "d = x - of_int f"
  have fl: "\<lfloor>x\<rfloor> = f" by (simp add: f_def)
  have dd: "x - of_int f = d" by (simp add: d_def)
  have x: "x = of_int f + d" by (simp add: d_def)
  have d0: "0 \<le> d" "d < 1" unfolding d_def f_def by linarith+
  have rhe: "round_half_even x = (if d < 1 / 2 then f else if 1 / 2 < d then f + 1 else if even f then f else f + 1)"
    unfolding round_half_even_def Let_def fl dd ..
  have cr: "c_round x = (if d < 1 / 2 then f else if 1 / 2 < d then f + 1 else if 0 \<le> x then f + 1 else f)"
    using c_round_cases[of x] unfolding fl dd .
  consider "d < 1 / 2" | "1 / 2 < d" | "d = 1 / 2" by linarith
  then show ?thesis
  proof cases
    case 1
    then have c: "c_round x = f" using cr by simp
    have "\<bar>x - of_int f\<bar> \<noteq> 1 / 2" using 1 dd d0 by linarith
    then show ?thesis using 1 c rhe by (simp add: float_round_def)
  next
    case 2
    then have c: "c_round x = f + 1" using cr by simp
    have "\<bar>x - of_int (f + 1)\<bar> \<noteq> 1 / 2" using 2 x d0 by simp
    then show ?thesis using 2 c rhe by (simp add: float_round_def del: of_int_add)
  next
    case 3
    have c: "c_round x = f \<or> c_round x = f + 1" using cr by auto
    have half: "\<bar>x - of_int (c_round x)\<bar> = 1 / 2"
    proof (cases "c_round x = f")
      case True
      have "x - of_int (c_round x) = d" unfolding True by (rule dd)
      then show ?thesis using 3 by simp
    next
      case False
      then have e: "c_round x = f + 1" using c by simp
      have "x - of_int (c_round x) = d - 1" unfolding e using dd by simp
      then show ?thesis using 3 by simp
    qed
    have "2 * c_round (x / 2) = (if even f then f else f + 1)"
    proof (cases "even f")
      case True
      then obtain k where k: "f = 2 * k" by (auto elim: evenE)
      have "x / 2 = of_int k + 1 / 4" using x 3 k by simp
      then have "c_round (x / 2) = k" using c_round_quarter[of k] by metis
      then show ?thesis using True k by simp
    next
      case False
      then obtain k where k: "f = 2 * k + 1" by (auto elim: oddE)
      have "x / 2 = of_int k + 3 / 4" using x 3 k by simp
      then have "c_round (x / 2) = k + 1" using c_round_three_quarters[of k] by metis
      then show ?thesis using False k by simp
    qed
    then show ?thesis using half 3 rhe
      by (simp add: float_round_def)
  qed
qed

lemma round_half_even_error: "\<bar>of_int (round_half_even x) - x\<bar> \<le> 1 / 2"
  unfolding round_half_even_def Let_def by (auto; linarith)

subsection \<open>Bits of a left-justified word\<close>

lemma and_pow2_minus_1: "(c::int) AND (2 ^ k - 1) = take_bit k c"
  by (simp add: take_bit_eq_mask mask_eq_exp_minus_1)

lemma in_range_signed:
  assumes "- (2 ^ j) \<le> (c::int)" "c < 2 ^ j"
  shows "signed_take_bit j c = c"
  using assms by (simp add: signed_take_bit_int_eq_self)

lemma sign_bit_in_range:
  assumes "- (2 ^ j) \<le> (c::int)" "c < 2 ^ j"
  shows "bit c j \<longleftrightarrow> c < 0"
  using signed_take_bit_negative_iff[of j c] in_range_signed[OF assms] by simp

lemma high_bits_in_range:
  assumes "- (2 ^ j) \<le> (c::int)" "c < 2 ^ j" "j \<le> q"
  shows "bit c q \<longleftrightarrow> c < 0"
proof -
  have "bit c q = bit (signed_take_bit j c) q" using in_range_signed[OF assms(1,2)] by simp
  also have "\<dots> = bit c j" using assms(3) by (simp add: bit_signed_take_bit_iff min_def)
  finally show ?thesis using sign_bit_in_range[OF assms(1,2)] by simp
qed

lemma word_bounds:
  assumes "j + k = 32"
  shows "0 \<le> push_bit j (take_bit k (c::int))" "push_bit j (take_bit k (c::int)) < 2 ^ 32"
proof -
  show "0 \<le> push_bit j (take_bit k c)" by simp
  have "take_bit k c < 2 ^ k" by simp
  then have "take_bit k c * 2 ^ j < 2 ^ k * 2 ^ j" by simp
  also have "\<dots> = 2 ^ 32" using assms by (simp add: power_add[symmetric] add.commute)
  finally show "push_bit j (take_bit k c) < 2 ^ 32" by (simp add: push_bit_eq_mult)
qed

lemma word_top_bit:
  assumes "j + Suc k = 32" "- (2 ^ k) \<le> (c::int)" "c < 2 ^ k"
  shows "bit (push_bit j (take_bit (Suc k) c)) 31 \<longleftrightarrow> c < 0"
proof -
  have "31 - j = k" "j \<le> 31" using assms(1) by simp_all
  then have "bit (push_bit j (take_bit (Suc k) c)) 31 = bit c k"
    by (simp add: bit_push_bit_iff bit_take_bit_iff)
  then show ?thesis using sign_bit_in_range[OF assms(2,3)] by simp
qed

lemma word_low_bits: "take_bit j (push_bit j (x::int)) = 0"
  by (simp add: take_bit_push_bit)

lemma word_signed:
  assumes "j + Suc k = 32" "- (2 ^ k) \<le> (c::int)" "c < 2 ^ k"
  shows "signed_take_bit 31 (push_bit j (take_bit (Suc k) c)) = push_bit j c"
proof (rule bit_eqI)
  fix i
  have jk: "31 - j = k" "j \<le> 31" using assms(1) by simp_all
  show "bit (signed_take_bit 31 (push_bit j (take_bit (Suc k) c))) i = bit (push_bit j c) i"
  proof (cases "i \<le> 31")
    case True
    then have "i - j < Suc k" using assms(1) by linarith
    then show ?thesis using True
      by (simp add: bit_signed_take_bit_iff bit_push_bit_iff bit_take_bit_iff min_def)
  next
    case False
    then have "k \<le> i - j" "j \<le> i" using assms(1) by linarith+
    then have "bit c (i - j) \<longleftrightarrow> bit c k"
      using high_bits_in_range[OF assms(2,3)] sign_bit_in_range[OF assms(2,3)] by simp
    then show ?thesis using False jk \<open>j \<le> i\<close>
      by (simp add: bit_signed_take_bit_iff bit_push_bit_iff bit_take_bit_iff min_def)
  qed
qed

lemma word_decode:
  assumes "j + Suc k = 32" "- (2 ^ k) \<le> (c::int)" "c < 2 ^ k"
  shows "drop_bit j (signed_take_bit 31 (push_bit j (take_bit (Suc k) c))) = c"
  by (simp add: word_signed[OF assms] drop_bit_push_bit)

subsection \<open>The encoder loop against the specification\<close>

lemma spec_clamp_range:
  "- (2 ^ nat (m + n)) \<le> spec_clamp m n s" "spec_clamp m n s < 2 ^ nat (m + n)"
  unfolding spec_clamp_def Let_def by auto

lemma spec_clamp_id:
  "- (2 ^ nat (m + n)) \<le> s \<Longrightarrow> s \<le> 2 ^ nat (m + n) - 1 \<Longrightarrow> spec_clamp m n s = s"
  unfolding spec_clamp_def Let_def by auto

lemma clamp_order:
  fixes p s :: int
  assumes "0 < p"
  shows "(let scaled1 = (if s > p - 1 then p - 1 else s)
          in if scaled1 < - p then - p else scaled1)
         = (if s > p - 1 then p - 1 else if s < - p then - p else s)"
  using assms unfolding Let_def by (auto; linarith)

lemma code_clamp_eq:
  "(let scaled1 = (if s > 2 ^ nat (m + n) - 1 then 2 ^ nat (m + n) - 1 else s)
    in if scaled1 < - (2 ^ nat (m + n)) then - (2 ^ nat (m + n)) else scaled1) = spec_clamp m n s"
  unfolding spec_clamp_def using clamp_order[of "2 ^ nat (m + n)" s] by (simp add: Let_def)

lemma py_lshift_nonneg: "0 \<le> k \<Longrightarrow> py_lshift a k = Inr (push_bit (nat k) a)"
  by (simp add: py_lshift_def)

lemma encode_word_eq:
  assumes "0 \<le> n" "1 + m + n \<le> 32"
  shows "encode_word n (32 - (1 + m + n)) (2 ^ nat (m + n) - 1) (2 ^ nat (m + n))
           (2 ^ nat (1 + m + n) - 1) angle
         = (if in_float_range n angle then Inr (spec_word m n angle) else Inl OverflowError)"
proof -
  have sh: "py_lshift 1 n = Inr (2 ^ nat n)"
    using assms by (simp add: py_lshift_nonneg push_bit_eq_mult)
  have cast: "real_of_int (2 ^ nat n) = 2 ^ nat n" by simp
  show ?thesis
    unfolding encode_word_def sh sum.case cast py_round_def in_float_range_def
    using assms(2)
    by (simp add: py_lshift_nonneg float_round_half_even spec_word_def spec_scaled_def
        code_clamp_eq[unfolded Let_def] Let_def push_bit_eq_mult)
qed

lemma qmn_loop_eq:
  assumes "\<And>a. encode_word n sl mx hr mk a = (if P a then Inr (w a) else Inl OverflowError)"
  shows "qmn_loop angles n sl mx hr mk result =
           (if \<forall>a\<in>set angles. P a then Inr (result @ map (\<lambda>a. ''0x'' @ fmt_08X (w a)) angles)
            else Inl OverflowError)"
proof (induction angles arbitrary: result)
  case Nil
  show ?case by simp
next
  case (Cons a angles)
  show ?case by (simp add: assms Cons.IH)
qed

lemma format_qmn_eq:
  assumes "0 \<le> m" "0 \<le> n" "1 + m + n \<le> 32"
  shows "format_qmn angles m n =
           (if \<forall>a\<in>set angles. in_float_range n a
            then Inr (map (\<lambda>a. ''0x'' @ fmt_08X (spec_word m n a)) angles)
            else Inl OverflowError)"
proof -
  have mn: "0 \<le> m + n" "0 \<le> 1 + m + n" using assms by simp_all
  have "format_qmn angles m n =
          qmn_loop angles n (32 - (1 + m + n)) (2 ^ nat (m + n) - 1) (2 ^ nat (m + n))
            (2 ^ nat (1 + m + n) - 1) []"
    using assms(3) mn
    by (simp add: format_qmn_def Let_def py_lshift_nonneg push_bit_eq_mult)
  also have "\<dots> = (if \<forall>a\<in>set angles. in_float_range n a
            then Inr ([] @ map (\<lambda>a. ''0x'' @ fmt_08X (spec_word m n a)) angles)
            else Inl OverflowError)"
    by (rule qmn_loop_eq) (rule encode_word_eq[OF assms(2,3)])
  finally show ?thesis by simp
qed

subsection \<open>Hexadecimal digits\<close>

lemma digit_char_cases:
  assumes "d < (16::nat)"
  shows "d \<in> {0,1,2,3,4,5,6,7,8,9,10,11,12,13,14,15}"
  using assms by (simp del: One_nat_def) presburger

lemma digit_value_digit_char: "d < 16 \<Longrightarrow> digit_value (digit_char d) = d"
  using digit_char_cases[of d] by (auto simp: digit_value_def digit_char_def)

lemma digit_char_in_set: "d < 16 \<Longrightarrow> digit_char d \<in> set ''0123456789ABCDEF''"
  using digit_char_cases[of d] by (auto simp: digit_char_def)

lemma hex_value_snoc: "hex_value (s @ [c]) = 16 * hex_value s + digit_value c"
  by (simp add: hex_value_def)

lemma hex_value_hex_digits: "hex_value (hex_digits k) = k"
proof (induction k rule: hex_digits.induct)
  case (1 k)
  show ?case
  proof (cases "k < 16")
    case True
    then show ?thesis
      by (subst hex_digits.simps) (simp add: hex_value_def digit_value_digit_char)
  next
    case False
    then have "hex_value (hex_digits (k div 16)) = k div 16" using 1 by simp
    then show ?thesis using False
      by (subst hex_digits.simps) (simp add: hex_value_snoc digit_value_digit_char)
  qed
qed

lemma set_hex_digits: "set (hex_digits k) \<subseteq> set ''0123456789ABCDEF''"
proof (induction k rule: hex_digits.induct)
  case (1 k)
  have m: "digit_char (k mod 16) \<in> set ''0123456789ABCDEF''"
    by (rule digit_char_in_set) simp
  show ?case
  proof (cases "k < 16")
    case True
    then show ?thesis using digit_char_in_set[of k]
      by (subst hex_digits.simps) simp
  next
    case False
    then have "set (hex_digits (k div 16)) \<subseteq> set ''0123456789ABCDEF''" using 1 by simp
    then show ?thesis using False m
      by (subst hex_digits.simps) simp
  qed
qed

lemma length_hex_digits: "k < 16 ^ Suc j \<Longrightarrow> length (hex_digits k) \<le> Suc j"
proof (induction j arbitrary: k)
  case 0
  then show ?case by (subst hex_digits.simps) simp
next
  case (Suc j)
  show ?case
  proof (cases "k < 16")
    case True
    then show ?thesis by (subst hex_digits.simps) simp
  next
    case False
    have "k div 16 < 16 ^ Suc j" using Suc.prems by (simp add: less_mult_imp_div_less)
    then have "length (hex_digits (k div 16)) \<le> Suc j" by (rule Suc.IH)
    then show ?thesis using False by (subst hex_digits.simps) simp
  qed
qed

lemma hex_value_zeros: "hex_value (replicate j CHR ''0'' @ s) = hex_value s"
proof -
  have z: "foldl (\<lambda>acc c. 16 * acc + digit_value c) 0 (replicate j CHR ''0'') = 0"
    by (induction j) (simp_all add: digit_value_def)
  show ?thesis by (simp add: hex_value_def z)
qed

lemma fmt_08X_props:
  assumes "0 \<le> w" "w < 2 ^ 32"
  shows "length (fmt_08X w) = 8"
    and "set (fmt_08X w) \<subseteq> set ''0123456789ABCDEF''"
    and "int (hex_value (fmt_08X w)) = w"
proof -
  have "nat w < 16 ^ Suc 7" using assms by (simp add: nat_less_iff)
  then have len: "length (hex_digits (nat w)) \<le> 8" using length_hex_digits[of "nat w" 7] by simp
  have f: "fmt_08X w = replicate (8 - length (hex_digits (nat w))) CHR ''0'' @ hex_digits (nat w)"
    using assms(1) by (simp add: fmt_08X_def zero_pad_def)
  show "length (fmt_08X w) = 8" using len by (simp add: f)
  show "set (fmt_08X w) \<subseteq> set ''0123456789ABCDEF''"
    unfolding f using set_hex_digits[of "nat w"] by auto
  show "int (hex_value (fmt_08X w)) = w"
    unfolding f hex_value_zeros hex_value_hex_digits using assms(1) by simp
qed

subsection \<open>The encoded word\<close>

lemma spec_word_facts:
  assumes "0 \<le> m" "0 \<le> n" "1 + m + n \<le> 32"
  shows "spec_word m n a =
           push_bit (nat (32 - (1 + m + n))) (take_bit (Suc (nat (m + n))) (spec_clamp m n (spec_scaled n a)))"
    and "nat (32 - (1 + m + n)) + Suc (nat (m + n)) = 32"
proof -
  have e: "nat (1 + m + n) = Suc (nat (m + n))" using assms by simp
  show "spec_word m n a =
           push_bit (nat (32 - (1 + m + n))) (take_bit (Suc (nat (m + n))) (spec_clamp m n (spec_scaled n a)))"
    unfolding spec_word_def Let_def e
    by (simp only: push_bit_of_1 and_pow2_minus_1)
  show "nat (32 - (1 + m + n)) + Suc (nat (m + n)) = 32" using assms by simp
qed

lemma spec_word_range:
  assumes "0 \<le> m" "0 \<le> n" "1 + m + n \<le> 32"
  shows "0 \<le> spec_word m n a" "spec_word m n a < 2 ^ 32"
  unfolding spec_word_facts(1)[OF assms]
  using word_bounds[OF spec_word_facts(2)[OF assms]] by simp_all

lemma spec_word_top_bit:
  assumes "0 \<le> m" "0 \<le> n" "1 + m + n \<le> 32"
  shows "bit (spec_word m n a) 31 \<longleftrightarrow> spec_clamp m n (spec_scaled n a) < 0"
  unfolding spec_word_facts(1)[OF assms]
  by (rule word_top_bit[OF spec_word_facts(2)[OF assms] spec_clamp_range])

lemma spec_word_low_bits:
  "take_bit (nat (32 - (1 + m + n))) (spec_word m n a) = 0"
  unfolding spec_word_def Let_def by (rule word_low_bits)

lemma spec_word_decode:
  assumes "0 \<le> m" "0 \<le> n" "1 + m + n \<le> 32"
  shows "drop_bit (nat (32 - (1 + m + n))) (signed_take_bit 31 (spec_word m n a))
           = spec_clamp m n (spec_scaled n a)"
  unfolding spec_word_facts(1)[OF assms]
  by (rule word_decode[OF spec_word_facts(2)[OF assms] spec_clamp_range])

lemma decode_error:
  assumes "0 \<le> m" "0 \<le> n" "1 + m + n \<le> 32"
    and "- (2 ^ nat (m + n)) \<le> spec_scaled n a" "spec_scaled n a \<le> 2 ^ nat (m + n) - 1"
  shows "\<bar>decode_word m n (spec_word m n a) - a\<bar> \<le> 1 / 2 ^ (nat n + 1)"
proof -
  have d: "decode_word m n (spec_word m n a) = real_of_int (spec_scaled n a) / 2 ^ nat n"
    unfolding decode_word_def spec_word_decode[OF assms(1-3)] spec_clamp_id[OF assms(4,5)] ..
  have r: "\<bar>real_of_int (spec_scaled n a) - a * 2 ^ nat n\<bar> \<le> 1 / 2"
    unfolding spec_scaled_def by (rule round_half_even_error)
  have "decode_word m n (spec_word m n a) - a
          = (real_of_int (spec_scaled n a) - a * 2 ^ nat n) / 2 ^ nat n"
    unfolding d by (simp add: field_simps)
  then have "\<bar>decode_word m n (spec_word m n a) - a\<bar>
          = \<bar>real_of_int (spec_scaled n a) - a * 2 ^ nat n\<bar> / 2 ^ nat n"
    by simp
  also have "\<dots> \<le> (1 / 2) / 2 ^ nat n"
    using r by (rule divide_right_mono) simp
  finally show ?thesis by simp
qed

subsection \<open>The generator loop\<close>

lemma float_exp2_nonneg: "0 \<le> float_exp2 y"
  by (simp add: float_exp2_def)

lemma lut_loop_eq:
  assumes "\<forall>i\<in>set is. 0 \<le> i"
  shows "lut_loop is angles K =
           Inr (angles @ map lut_angle is, foldl (\<lambda>K i. K * lut_factor i) K is)"
  using assms
proof (induction "is" arbitrary: angles K)
  case Nil
  show ?case by simp
next
  case (Cons i "is")
  have i: "0 \<le> i" using Cons.prems by simp
  have p1: "float_pow2 (- real_of_int i) = Inr (float_exp2 (- real_of_int i))"
    using i by (simp add: float_pow2_def)
  have p2: "float_pow2 (- 2 * real_of_int i) = Inr (float_exp2 (- 2 * real_of_int i))"
    using i by (simp add: float_pow2_def)
  have pos: "0 < 1 + float_exp2 (- 2 * real_of_int i)"
    using float_exp2_nonneg[of "- 2 * real_of_int i"] by linarith
  have s: "math_sqrt (1 + float_exp2 (- 2 * real_of_int i))
             = Inr (sqrt (1 + float_exp2 (- 2 * real_of_int i)))"
    using pos by (simp add: math_sqrt_def)
  have d: "float_truediv 1 (sqrt (1 + float_exp2 (- 2 * real_of_int i))) = Inr (lut_factor i)"
    using pos by (simp add: float_truediv_def lut_factor_def)
  have IH: "lut_loop is (angles @ [lut_angle i]) (K * lut_factor i) =
           Inr ((angles @ [lut_angle i]) @ map lut_angle is,
                foldl (\<lambda>K i. K * lut_factor i) (K * lut_factor i) is)"
    by (rule Cons.IH) (use Cons.prems in simp)
  show ?case
    unfolding lut_loop.simps p1 p2 s d sum.case Let_def math_atan_def
    using IH by (simp add: lut_angle_def)
qed

lemma generate_cordic_lut_eq:
  "generate_cordic_lut n_iter =
     Inr (map lut_angle [0..n_iter - 1], foldl (\<lambda>K i. K * lut_factor i) 1 [0..n_iter - 1])"
  unfolding generate_cordic_lut_def by (subst lut_loop_eq) simp_all

lemma float_exp2_exact: "0 \<le> i \<Longrightarrow> i \<le> 1074 \<Longrightarrow> float_exp2 (- real_of_int i) = 1 / 2 ^ nat i"
proof -
  assume a: "0 \<le> i" "i \<le> 1074"
  have "2 powr (- real_of_int i) = 1 / 2 powr (real (nat i))"
    using a by (simp add: powr_minus divide_inverse)
  also have "\<dots> = 1 / 2 ^ nat i" by (simp add: powr_realpow)
  finally show ?thesis using a by (simp add: float_exp2_def)
qed

lemma float_exp2_underflow: "1075 \<le> i \<Longrightarrow> float_exp2 (- real_of_int i) = 0"
  by (simp add: float_exp2_def)

lemma lut_angle_exact: "0 \<le> i \<Longrightarrow> i \<le> 1074 \<Longrightarrow> lut_angle i = arctan (1 / 2 ^ nat i)"
  by (simp add: lut_angle_def float_exp2_exact)

lemma lut_factor_exact:
  assumes "0 \<le> i" "i \<le> 537"
  shows "lut_factor i = 1 / sqrt (1 + 1 / 2 ^ (2 * nat i))"
proof -
  have "- 2 * real_of_int i = - real_of_int (2 * i)" by simp
  moreover have "float_exp2 (- real_of_int (2 * i)) = 1 / 2 ^ nat (2 * i)"
    by (rule float_exp2_exact) (use assms in simp_all)
  moreover have "nat (2 * i) = 2 * nat i" using assms by simp
  ultimately show ?thesis by (simp add: lut_factor_def)
qed

lemma nth_upto_0: "k < nat n \<Longrightarrow> [0..n - 1] ! k = int k"
  by (subst nth_upto) simp_all

lemma word_of_hex_fmt:
  assumes "0 \<le> w" "w < 2 ^ 32"
  shows "word_of_hex (''0x'' @ fmt_08X w) = w"
  using fmt_08X_props(3)[OF assms] by (simp add: word_of_hex_def)

lemma half_even_int: "round_half_even (real_of_int k) = k"
  by (simp add: round_half_even_def)

lemma spec_word_eval:
  assumes "0 \<le> m" "0 \<le> n" "1 + m + n \<le> 32"
  shows "spec_word m n a = (spec_clamp m n (spec_scaled n a) mod 2 ^ Suc (nat (m + n))) * 2 ^ nat (32 - (1 + m + n))"
  unfolding spec_word_facts(1)[OF assms] by (simp add: push_bit_eq_mult take_bit_eq_mod)

lemma float_round_clamp_id:
  assumes "- (2 ^ nat (m + n)) \<le> float_round (a * 2 ^ nat n)"
    and "float_round (a * 2 ^ nat n) \<le> 2 ^ nat (m + n) - 1"
  shows "- (2 ^ nat (m + n)) \<le> spec_scaled n a" "spec_scaled n a \<le> 2 ^ nat (m + n) - 1"
  using assms by (simp_all add: spec_scaled_def float_round_half_even)

subsection \<open>Runs of the command line\<close>



lemma main_lookup_v_cases:
  "lookup_v (main a) = None
   \<or> (lookup_v (main a) = Some [] \<and> raised (main a) = Some TypeError
        \<and> arg_genverilog a \<and> (arg_m a = None \<or> arg_n a = None))
   \<or> (\<exists>txt. lookup_v (main a) = Some txt \<and> txt \<noteq> []
        \<and> arg_genverilog a \<and> arg_m a \<noteq> None \<and> arg_n a \<noteq> None)"
  unfolding main_def generate_cordic_lut_eq write_lookup_v_def
  by (auto simp: verilog_header_def Let_def split: option.splits sum.splits)

lemma main_without_format:
  assumes "arg_genverilog a" "arg_m a = None \<or> arg_n a = None"
  shows "main a = \<lparr>lookup_v = Some [], raised = Some TypeError\<rparr>"
  unfolding main_def generate_cordic_lut_eq write_lookup_v_def
  using assms by (auto split: option.splits)



lemma round_half_even_ge_1: "1 \<le> x \<Longrightarrow> 1 \<le> round_half_even x"
proof -
  assume "1 \<le> x"
  then have "1 \<le> \<lfloor>x\<rfloor>" by simp
  then show ?thesis unfolding round_half_even_def Let_def by auto
qed

lemma lut_1: "generate_cordic_lut 1 = Inr ([pi / 4], 1 / sqrt 2)"
  by (simp add: generate_cordic_lut_eq lut_angle_def lut_factor_def float_exp2_def arctan_one)

lemma word_pi4: "spec_word 0 1 (pi / 4) = 1073741824"
proof -
  have "1 \<le> pi / 4 * 2 ^ nat 1" using pi_ge_two by simp
  then have "1 \<le> spec_scaled 1 (pi / 4)"
    unfolding spec_scaled_def by (rule round_half_even_ge_1)
  then have "spec_clamp 0 1 (spec_scaled 1 (pi / 4)) = 1"
    by (simp add: spec_clamp_def)
  then show ?thesis by (subst spec_word_eval) simp_all
qed

lemma fmt_pi4: "fmt_08X 1073741824 = ''40000000''"
  by (simp add: fmt_08X_def zero_pad_def hex_digits.simps digit_char_def)

lemma format_pi4: "format_qmn [pi / 4] 0 1 = Inr [''0x40000000'']"
proof -
  have "\<bar>pi / 4 * 2\<bar> < 2 ^ 1024" using pi_less_4 pi_gt_zero by simp
  then have "\<forall>angle\<in>set [pi / 4]. in_float_range 1 angle" by (simp add: in_float_range_def)
  then show ?thesis using format_qmn_eq[of 0 1 "[pi / 4]"] by (simp add: word_pi4 fmt_pi4)
qed


section \<open>The claims\<close>

text \<open>
  Claim C1. For \<open>m, n \<ge> 0\<close> with \<open>1 + m + n \<le> 32\<close> and angles whose scaled product is
  a finite float, \<^verbatim>\<open>format_qmn\<close> returns, angle by angle and in order, the serialisation
  of the word the specification describes: \<open>scaled\<close> is the product rounded to the nearest
  integer with halves to even, saturated to \<open>[- 2 ^ (m + n), 2 ^ (m + n) - 1]\<close>, masked
  to \<open>1 + m + n\<close> bits and shifted left by \<open>32 - (1 + m + n)\<close>.
\<close>

theorem format_qmn_words:
  assumes "0 \<le> m" "0 \<le> n" "1 + m + n \<le> 32"
    and "\<forall>angle\<in>set angles. in_float_range n angle"
  shows "format_qmn angles m n = Inr (map (\<lambda>angle. ''0x'' @ fmt_08X (spec_word m n angle)) angles)"
  using format_qmn_eq[OF assms(1-3), of angles] assms(4) by simp

theorem format_qmn_words_witness:
  "format_qmn [1 / 2, - 3, 3 / 128, 5 / 128] 1 6
     = Inr [''0x20000000'', ''0x80000000'', ''0x02000000'', ''0x02000000'']"
proof -
  have r: "\<forall>angle\<in>set [1 / 2, - 3, 3 / 128, 5 / 128 :: real]. in_float_range 6 angle"
    by (simp add: in_float_range_def)
  have s1: "spec_scaled 6 (1 / 2) = 32"
    using half_even_int[of 32] by (simp add: spec_scaled_def)
  have s2: "spec_scaled 6 (- 3) = - 192"
    using half_even_int[of "- 192"] by (simp add: spec_scaled_def)
  have s3: "spec_scaled 6 (3 / 128) = 2"
    by (simp add: spec_scaled_def round_half_even_def)
  have s4: "spec_scaled 6 (5 / 128) = 2"
    by (simp add: spec_scaled_def round_half_even_def)
  have w1: "spec_word 1 6 (1 / 2) = 536870912"
    by (subst spec_word_eval) (simp_all add: s1 spec_clamp_def)
  have w2: "spec_word 1 6 (- 3) = 2147483648"
    by (subst spec_word_eval) (simp_all add: s2 spec_clamp_def)
  have w3: "spec_word 1 6 (3 / 128) = 33554432"
    by (subst spec_word_eval) (simp_all add: s3 spec_clamp_def)
  have w4: "spec_word 1 6 (5 / 128) = 33554432"
    by (subst spec_word_eval) (simp_all add: s4 spec_clamp_def)
  have f1: "fmt_08X 536870912 = ''20000000''"
    by (simp add: fmt_08X_def zero_pad_def hex_digits.simps digit_char_def)
  have f2: "fmt_08X 2147483648 = ''80000000''"
    by (simp add: fmt_08X_def zero_pad_def hex_digits.simps digit_char_def)
  have f3: "fmt_08X 33554432 = ''02000000''"
    by (simp add: fmt_08X_def zero_pad_def hex_digits.simps digit_char_def)
  have "format_qmn [1 / 2, - 3, 3 / 128, 5 / 128] 1 6
          = Inr (map (\<lambda>angle. ''0x'' @ fmt_08X (spec_word 1 6 angle))
                  [1 / 2, - 3, 3 / 128, 5 / 128])"
    by (rule format_qmn_words) (use r in simp_all)
  then show ?thesis by (simp add: w1 w2 w3 w4 f1 f2 f3)
qed



text \<open>
  Claim C3. \<^verbatim>\<open>generate_cordic_lut\<close> never fails and returns the pair of the table
  \<open>atan (2.0 ** -i)\<close>, \<open>i = 0 .. n_iter - 1\<close>, and the product of \<open>1 / sqrt (1 + 2.0 ** (-2 i))\<close>
  taken left to right from \<open>1\<close>; the powers are the doubles. Up to 538 iterations no
  power underflows and the pair is that of \<open>atan (1 / 2 ^ i)\<close> and
  \<open>1 / sqrt (1 + 1 / 2 ^ (2 i))\<close>.
\<close>

theorem generate_cordic_lut_table:
  "generate_cordic_lut n_iter =
     Inr (map (\<lambda>i. arctan (float_exp2 (- real_of_int i))) [0..n_iter - 1],
          foldl (\<lambda>K i. K * (1 / sqrt (1 + float_exp2 (- 2 * real_of_int i)))) 1 [0..n_iter - 1])
   \<and> (n_iter \<le> 538 \<longrightarrow>
        generate_cordic_lut n_iter =
          Inr (map (\<lambda>i. arctan (1 / 2 ^ nat i)) [0..n_iter - 1],
               foldl (\<lambda>K i. K * (1 / sqrt (1 + 1 / 2 ^ (2 * nat i)))) 1 [0..n_iter - 1]))"
proof (intro conjI impI)
  show g: "generate_cordic_lut n_iter =
     Inr (map (\<lambda>i. arctan (float_exp2 (- real_of_int i))) [0..n_iter - 1],
          foldl (\<lambda>K i. K * (1 / sqrt (1 + float_exp2 (- 2 * real_of_int i)))) 1 [0..n_iter - 1])"
    using generate_cordic_lut_eq[of n_iter]
    by (simp add: lut_angle_def[abs_def] lut_factor_def[abs_def])
  assume n: "n_iter \<le> 538"
  have a: "map lut_angle [0..n_iter - 1] = map (\<lambda>i. arctan (1 / 2 ^ nat i)) [0..n_iter - 1]"
    by (rule map_cong) (use n in \<open>auto intro: lut_angle_exact\<close>)
  have f: "foldl (\<lambda>K i. K * lut_factor i) K0 js
             = foldl (\<lambda>K i. K * (1 / sqrt (1 + 1 / 2 ^ (2 * nat i)))) K0 js"
    if "\<forall>i\<in>set js. 0 \<le> i \<and> i \<le> 537" for K0 js
    using that by (induction js arbitrary: K0) (simp_all add: lut_factor_exact)
  have k: "foldl (\<lambda>K i. K * lut_factor i) 1 [0..n_iter - 1]
             = foldl (\<lambda>K i. K * (1 / sqrt (1 + 1 / 2 ^ (2 * nat i)))) 1 [0..n_iter - 1]"
    by (rule f) (use n in auto)
  show "generate_cordic_lut n_iter =
          Inr (map (\<lambda>i. arctan (1 / 2 ^ nat i)) [0..n_iter - 1],
               foldl (\<lambda>K i. K * (1 / sqrt (1 + 1 / 2 ^ (2 * nat i)))) 1 [0..n_iter - 1])"
    unfolding generate_cordic_lut_eq a k ..
qed

theorem generate_cordic_lut_table_witness:
  "(2::int) \<le> 538 \<and> generate_cordic_lut 2 = Inr ([pi / 4, arctan (1 / 2)], 1 * (1 / sqrt 2) * (1 / sqrt (1 + 1 / 4)))"
  using generate_cordic_lut_table[of 2, THEN conjunct2] by (simp add: upto.simps arctan_one)

text \<open>
  Claim C4. The text written for \<^verbatim>\<open>-N 1 --m 0 --n 1 -V\<close>: the module
  \<^verbatim>\<open>arctan_lookup\<close>, one assignment \<^verbatim>\<open>lookup_table[i] <= 32'h...;\<close> per encoded word and
  the second clocked process reading \<^verbatim>\<open>lookup_table[j]\<close>; the array is declared
  \<^verbatim>\<open>lookup_table[0:I]\<close>, which is \<open>I + 1\<close> entries, where the claim has
  \<^verbatim>\<open>lookup_table[0:I-1]\<close>.
\<close>

theorem lookup_v_text_example:
  "main \<lparr>arg_niter = 1, arg_m = Some 0, arg_n = Some 1, arg_genverilog = True\<rparr> =
     \<lparr>lookup_v = Some (
        ''////////////////////////////////////////////////////////////////////////////////\<newline>''
        @ ''// Author: Sudeep Joshi\<newline>''
        @ ''// Description: Arctan Look-Up table for CORDIC Unit\<newline>''
        @ ''////////////////////////////////////////////////////////////////////////////////\<newline>''
        @ ''`default_nettype none\<newline>\<newline>''
        @ ''module arctan_lookup #(\<newline>''
        @ ''    parameter N = 2,\<newline>''
        @ ''    parameter I = 1\<newline>''
        @ '') (\<newline>''
        @ ''    input  wire                 clk,\<newline>''
        @ ''    input  wire                 rst_n,\<newline>''
        @ ''    input  wire [$clog2(I)-1:0] j,\<newline>''
        @ ''    output reg  [N-1:0]         arctan\<newline>''
        @ '');\<newline>\<newline>''
        @ ''    reg [N-1:0] lookup_table[0:I];\<newline>\<newline>''
        @ ''    /*** Python Generated Block ***/\<newline>''
        @ ''    always @(posedge clk) begin\<newline>''
        @ ''       if(~rst_n) begin\<newline>''
        @ ''        lookup_table[0] <= 32'h40000000;\<newline>''
        @ ''    end\<newline>\<newline>''
        @ ''    end\<newline>\<newline>''
        @ ''    always @(posedge clk) begin\<newline>''
        @ ''        arctan <= lookup_table[j];\<newline>''
        @ ''    end \<newline>\<newline>''
        @ ''endmodule\<newline>''),
      raised = None\<rparr>"
proof -
  have d: "str_int 0 = ''0''" "str_int 1 = ''1''" "str_int 2 = ''2''"
    by (simp_all add: str_int_def dec_digits.simps digit_char_def)
  show ?thesis
    by (simp add: main_def lut_1 format_pi4 write_lookup_v_def verilog_header_def
        verilog_line_def verilog_footer_def enumerate_eq_zip d upt_rec)
qed

text \<open>
  Claim C5. Under the same conditions as C1 the output has the length of the input,
  entry \<open>i\<close> encodes angle \<open>i\<close>, bit 31 of every word is set exactly when the clamped
  scaled value is negative, and the low \<open>32 - (1 + m + n)\<close> bits are zero.
\<close>

theorem format_qmn_layout:
  assumes "0 \<le> m" "0 \<le> n" "1 + m + n \<le> 32"
    and "\<forall>angle\<in>set angles. in_float_range n angle"
  shows "\<exists>out. format_qmn angles m n = Inr out \<and> length out = length angles
           \<and> (\<forall>i<length angles.
                 out ! i = ''0x'' @ fmt_08X (spec_word m n (angles ! i))
                 \<and> (bit (word_of_hex (out ! i)) 31
                      \<longleftrightarrow> spec_clamp m n (spec_scaled n (angles ! i)) < 0)
                 \<and> take_bit (nat (32 - (1 + m + n))) (word_of_hex (out ! i)) = 0)"
proof -
  define out where "out = map (\<lambda>angle. ''0x'' @ fmt_08X (spec_word m n angle)) angles"
  have f: "format_qmn angles m n = Inr out"
    using format_qmn_eq[OF assms(1-3), of angles] assms(4) by (simp add: out_def)
  have w: "word_of_hex (out ! i) = spec_word m n (angles ! i)" if "i < length angles" for i
    using that word_of_hex_fmt[OF spec_word_range[OF assms(1-3)]] by (simp add: out_def)
  have "out ! i = ''0x'' @ fmt_08X (spec_word m n (angles ! i))
          \<and> (bit (word_of_hex (out ! i)) 31 \<longleftrightarrow> spec_clamp m n (spec_scaled n (angles ! i)) < 0)
          \<and> take_bit (nat (32 - (1 + m + n))) (word_of_hex (out ! i)) = 0"
    if "i < length angles" for i
    unfolding w[OF that]
    using that spec_word_top_bit[OF assms(1-3)] spec_word_low_bits by (simp add: out_def)
  then show ?thesis using f by (auto simp: out_def)
qed

theorem format_qmn_layout_witness:
  "\<exists>out. format_qmn [1 / 2, - 3] 1 6 = Inr out \<and> length out = length [1 / 2, - 3 :: real]
     \<and> (\<forall>i<length [1 / 2, - 3 :: real].
           out ! i = ''0x'' @ fmt_08X (spec_word 1 6 ([1 / 2, - 3] ! i))
           \<and> (bit (word_of_hex (out ! i)) 31
                \<longleftrightarrow> spec_clamp 1 6 (spec_scaled 6 ([1 / 2, - 3] ! i)) < 0)
           \<and> take_bit (nat (32 - (1 + 1 + 6))) (word_of_hex (out ! i)) = 0)"
  by (rule format_qmn_layout) (simp_all add: in_float_range_def)

text \<open>
  Claim C6, as amended. For \<open>1 \<le> n_iter \<le> 1075\<close> the table has \<open>n_iter\<close> entries, is
  strictly decreasing, and every entry lies in \<open>(0, pi / 4]\<close>. From entry 1075 on the
  double \<^verbatim>\<open>2.0 ** -i\<close> is \<open>0.0\<close> and so is the entry.
\<close>

theorem angle_table_small:
  assumes "1 \<le> n_iter" "n_iter \<le> 1075"
  shows "\<exists>angles K. generate_cordic_lut n_iter = Inr (angles, K)
           \<and> int (length angles) = n_iter
           \<and> (\<forall>i j. i < j \<and> j < length angles \<longrightarrow> angles ! j < angles ! i)
           \<and> (\<forall>a\<in>set angles. 0 < a \<and> a \<le> pi / 4)"
proof -
  define angles where "angles = map lut_angle [0..n_iter - 1]"
  have len: "length angles = nat n_iter" by (simp add: angles_def)
  have nth: "angles ! k = arctan (1 / 2 ^ k)" if "k < nat n_iter" for k
  proof -
    have "angles ! k = lut_angle (int k)"
      using that by (simp add: angles_def nth_upto_0)
    also have "\<dots> = arctan (1 / 2 ^ nat (int k))"
      by (rule lut_angle_exact) (use that assms in simp_all)
    finally show ?thesis by simp
  qed
  have dec: "angles ! j < angles ! i" if "i < j" "j < length angles" for i j
  proof -
    have "(2::real) ^ i < 2 ^ j" using that(1) by simp
    then have "1 / (2::real) ^ j < 1 / 2 ^ i" by (simp add: frac_less2)
    then show ?thesis using that nth[of i] nth[of j] len by (simp add: arctan_less_iff)
  qed
  have rng: "0 < a \<and> a \<le> pi / 4" if mem: "a \<in> set angles" for a
  proof -
    obtain k where k: "k < length angles" "angles ! k = a"
      using mem by (auto simp: in_set_conv_nth)
    then have a: "a = arctan (1 / 2 ^ k)" using nth[of k] len by simp
    have "(1::real) \<le> 2 ^ k" by simp
    then have "1 / (2::real) ^ k \<le> 1" by simp
    then have "arctan (1 / 2 ^ k) \<le> arctan 1" by (simp only: arctan_le_iff)
    moreover have "0 < arctan (1 / 2 ^ k)" by simp
    ultimately show ?thesis by (simp add: a arctan_one)
  qed
  have "generate_cordic_lut n_iter = Inr (angles, foldl (\<lambda>K i. K * lut_factor i) 1 [0..n_iter - 1])"
    by (simp add: generate_cordic_lut_eq angles_def)
  then show ?thesis using len dec rng assms(1) by auto
qed

theorem angle_table_small_witness:
  "(1::int) \<le> 4 \<and> (4::int) \<le> 1075 \<and>
   (\<exists>angles K. generate_cordic_lut 4 = Inr (angles, K)
           \<and> int (length angles) = 4
           \<and> (\<forall>i j. i < j \<and> j < length angles \<longrightarrow> angles ! j < angles ! i)
           \<and> (\<forall>a\<in>set angles. 0 < a \<and> a \<le> pi / 4))"
  using angle_table_small[of 4] by simp

text \<open>
  The claim as stated, at \<open>n_iter = 1100\<close>: the generator returns 1100 entries, entry 1099
  is \<open>0\<close>, outside \<open>(0, pi / 4]\<close>, and equals entry 1098.
\<close>

theorem angle_table_underflow:
  "\<not> isl (generate_cordic_lut 1100)
   \<and> length (fst (projr (generate_cordic_lut 1100))) = 1100
   \<and> fst (projr (generate_cordic_lut 1100)) ! 1099 = 0
   \<and> fst (projr (generate_cordic_lut 1100)) ! 1098 = fst (projr (generate_cordic_lut 1100)) ! 1099"
proof -
  have a: "fst (projr (generate_cordic_lut 1100)) = map lut_angle [0..1100 - 1]"
    by (simp add: generate_cordic_lut_eq)
  have n9: "map lut_angle [0..1100 - 1] ! 1099 = lut_angle (int 1099)"
    by (subst nth_map) (simp_all add: nth_upto_0)
  have n8: "map lut_angle [0..1100 - 1] ! 1098 = lut_angle (int 1098)"
    by (subst nth_map) (simp_all add: nth_upto_0)
  have z9: "lut_angle (int 1099) = 0" by (simp add: lut_angle_def float_exp2_def)
  have z8: "lut_angle (int 1098) = 0" by (simp add: lut_angle_def float_exp2_def)
  show ?thesis unfolding a n9 n8 z9 z8 by (simp add: generate_cordic_lut_eq)
qed

text \<open>
  Claim C7. Under the conditions of C1, for every angle whose rounded scaled value is not
  clamped, decoding its output word (two's complement, arithmetic shift right by
  \<open>32 - (1 + m + n)\<close>, division by \<open>2 ^ n\<close>) gives a value within \<open>1 / 2 ^ (n + 1)\<close>
  of the angle.
\<close>

theorem format_qmn_round_trip:
  assumes "0 \<le> m" "0 \<le> n" "1 + m + n \<le> 32"
    and "\<forall>angle\<in>set angles. in_float_range n angle"
  shows "\<exists>out. format_qmn angles m n = Inr out \<and> length out = length angles
           \<and> (\<forall>i<length angles.
                 - (2 ^ nat (m + n)) \<le> float_round (angles ! i * 2 ^ nat n)
                 \<and> float_round (angles ! i * 2 ^ nat n) \<le> 2 ^ nat (m + n) - 1
                 \<longrightarrow> \<bar>decode_word m n (word_of_hex (out ! i)) - angles ! i\<bar> \<le> 1 / 2 ^ (nat n + 1))"
proof -
  define out where "out = map (\<lambda>angle. ''0x'' @ fmt_08X (spec_word m n angle)) angles"
  have f: "format_qmn angles m n = Inr out"
    using format_qmn_eq[OF assms(1-3), of angles] assms(4) by (simp add: out_def)
  have w: "word_of_hex (out ! i) = spec_word m n (angles ! i)" if "i < length angles" for i
    using that word_of_hex_fmt[OF spec_word_range[OF assms(1-3)]] by (simp add: out_def)
  have "\<bar>decode_word m n (word_of_hex (out ! i)) - angles ! i\<bar> \<le> 1 / 2 ^ (nat n + 1)"
    if "i < length angles"
      and "- (2 ^ nat (m + n)) \<le> float_round (angles ! i * 2 ^ nat n)"
      and "float_round (angles ! i * 2 ^ nat n) \<le> 2 ^ nat (m + n) - 1" for i
    unfolding w[OF that(1)]
    by (rule decode_error[OF assms(1-3) float_round_clamp_id[OF that(2,3)]])
  then show ?thesis using f by (auto simp: out_def)
qed

theorem format_qmn_round_trip_witness:
  "\<exists>out. format_qmn [1 / 2, 3 / 128] 1 6 = Inr out \<and> length out = length [1 / 2, 3 / 128 :: real]
     \<and> (\<forall>i<length [1 / 2, 3 / 128 :: real].
           - (2 ^ nat (1 + 6)) \<le> float_round ([1 / 2, 3 / 128] ! i * 2 ^ nat 6)
           \<and> float_round ([1 / 2, 3 / 128] ! i * 2 ^ nat 6) \<le> 2 ^ nat (1 + 6) - 1
           \<longrightarrow> \<bar>decode_word 1 6 (word_of_hex (out ! i)) - [1 / 2, 3 / 128] ! i\<bar>
                 \<le> 1 / 2 ^ (nat 6 + 1))"
  by (rule format_qmn_round_trip) (simp_all add: in_float_range_def)

text \<open>
  Claim C8. The run \<^verbatim>\<open>-N 16 --n 6 -V\<close>, with the flag set and \<open>m\<close> absent. The claim
  has no Verilog artifact produced there. The block under \<^verbatim>\<open>if args.genverilog\<close> lacks
  the test \<^verbatim>\<open>args.m is None or args.n is None\<close> that guards the report above it: the
  run opens \<^verbatim>\<open>rtl/lookup.v\<close> for writing, which creates it or empties it, raises
  TypeError on \<^verbatim>\<open>1+args.m+args.n\<close> before anything is written, and ends with exit
  status 1.
\<close>

theorem lookup_v_without_format_example:
  "main \<lparr>arg_niter = 16, arg_m = None, arg_n = Some 6, arg_genverilog = True\<rparr>
     = \<lparr>lookup_v = Some [], raised = Some TypeError\<rparr>
   \<and> exit_status (main \<lparr>arg_niter = 16, arg_m = None, arg_n = Some 6, arg_genverilog = True\<rparr>)
       = 1"
proof -
  have e: "main \<lparr>arg_niter = 16, arg_m = None, arg_n = Some 6, arg_genverilog = True\<rparr>
             = \<lparr>lookup_v = Some [], raised = Some TypeError\<rparr>"
    by (rule main_without_format) simp_all
  show ?thesis by (simp add: e exit_status_def)
qed

text \<open>
  Claim C9. For \<open>n_iter = 0\<close> the generator returns the empty table and the gain \<open>1\<close>.
\<close>

theorem generate_cordic_lut_zero: "generate_cordic_lut 0 = Inr ([], 1)"
  by (simp add: generate_cordic_lut_def)

text \<open>
  Claim C10. For \<open>m, n \<ge> 0\<close> with \<open>1 + m + n \<le> 32\<close> and any list of angles, negative
  or large ones included: whenever \<^verbatim>\<open>format_qmn\<close> returns, every word it encoded lies
  in \<open>[0, 2 ^ 32)\<close> and every output string is \<^verbatim>\<open>0x\<close> followed by exactly eight
  upper-case hexadecimal digits.
\<close>

theorem format_qmn_word_range:
  assumes "0 \<le> m" "0 \<le> n" "1 + m + n \<le> 32"
    and "format_qmn angles m n = Inr out"
  shows "out = map (\<lambda>angle. ''0x'' @ fmt_08X (spec_word m n angle)) angles
         \<and> (\<forall>angle\<in>set angles. 0 \<le> spec_word m n angle \<and> spec_word m n angle < 2 ^ 32)
         \<and> (\<forall>s\<in>set out. length s = 10 \<and> take 2 s = ''0x''
               \<and> set (drop 2 s) \<subseteq> set ''0123456789ABCDEF''
               \<and> 0 \<le> word_of_hex s \<and> word_of_hex s < 2 ^ 32)"
proof -
  have o: "out = map (\<lambda>angle. ''0x'' @ fmt_08X (spec_word m n angle)) angles"
    using format_qmn_eq[OF assms(1-3), of angles] assms(4) by (simp split: if_splits)
  have r: "0 \<le> spec_word m n angle \<and> spec_word m n angle < 2 ^ 32" for angle
    using spec_word_range[OF assms(1-3)] by simp
  have s: "length s = 10 \<and> take 2 s = ''0x'' \<and> set (drop 2 s) \<subseteq> set ''0123456789ABCDEF''
             \<and> 0 \<le> word_of_hex s \<and> word_of_hex s < 2 ^ 32" if "s \<in> set out" for s
  proof -
    obtain angle where a: "s = ''0x'' @ fmt_08X (spec_word m n angle)"
      using \<open>s \<in> set out\<close> unfolding o by auto
    have b: "0 \<le> spec_word m n angle" "spec_word m n angle < 2 ^ 32" using r by simp_all
    show ?thesis
      unfolding a word_of_hex_fmt[OF b]
      using fmt_08X_props(1,2)[OF b] b by simp
  qed
  show ?thesis using o r s by blast
qed

theorem format_qmn_word_range_witness:
  "\<exists>out. format_qmn [- 3, 10 ^ 300] 1 6 = Inr out
     \<and> out = map (\<lambda>angle. ''0x'' @ fmt_08X (spec_word 1 6 angle)) [- 3, 10 ^ 300]
     \<and> (\<forall>angle\<in>set [- 3, 10 ^ 300]. 0 \<le> spec_word 1 6 angle \<and> spec_word 1 6 angle < 2 ^ 32)
     \<and> (\<forall>s\<in>set out. length s = 10 \<and> take 2 s = ''0x''
           \<and> set (drop 2 s) \<subseteq> set ''0123456789ABCDEF''
           \<and> 0 \<le> word_of_hex s \<and> word_of_hex s < 2 ^ 32)"
proof -
  have r: "\<forall>angle\<in>set [- 3, 10 ^ 300 :: real]. in_float_range 6 angle"
    by (simp add: in_float_range_def)
  have e: "format_qmn [- 3, 10 ^ 300] 1 6
             = Inr (map (\<lambda>angle. ''0x'' @ fmt_08X (spec_word 1 6 angle)) [- 3, 10 ^ 300])"
    using format_qmn_eq[of 1 6 "[- 3, 10 ^ 300]"] r by simp
  show ?thesis
    using format_qmn_word_range[OF _ _ _ e] e by (intro exI[of _ "map (\<lambda>angle. ''0x'' @ fmt_08X (spec_word 1 6 angle)) [- 3, 10 ^ 300]"]) simp
qed

end
